theory Spec2Isabelle
  imports Main "HOL-Library.AList"
begin

section \<open>The decorated graph\<close>

text \<open>
  A node of \<^verbatim>\<open>BaseGraphState\<close> carries three boolean attributes, read and written as
  \<^verbatim>\<open>self.nodes[node]["hollow"]\<close>, \<^verbatim>\<open>["sign"]\<close> and \<^verbatim>\<open>["loop"]\<close>.
\<close>

record flags =
  hollow :: bool
  sign :: bool
  loop :: bool

text \<open>
  Modelled from the spec: the graph store behind the abstract members \<^verbatim>\<open>nodes\<close>,
  \<^verbatim>\<open>edges\<close>, \<^verbatim>\<open>neighbors\<close>, \<^verbatim>\<open>remove_node\<close> and \<^verbatim>\<open>local_complement\<close> of
  \<^verbatim>\<open>BaseGraphState\<close> (the two backends are not part of the source file). Nodes are an
  insertion-ordered dictionary from identifiers to their flags; edges are an undirected
  simple set of unordered pairs of identifiers.
\<close>

record graph =
  nodes :: "(int \<times> flags) list"
  edges :: "int set set"

datatype error = ValueError string | NotFound int

definition node_ids :: "graph \<Rightarrow> int list" where
  "node_ids g = map fst (nodes g)"

definition has_node :: "graph \<Rightarrow> int \<Rightarrow> bool" where
  "has_node g n \<longleftrightarrow> n \<in> set (node_ids g)"

text \<open>
  The invariants of the data model: identifiers are unique, and every edge joins two
  distinct nodes of the graph (no self-loop is stored as an edge).
\<close>

definition wf_graph :: "graph \<Rightarrow> bool" where
  "wf_graph g \<longleftrightarrow>
     distinct (node_ids g) \<and> (\<forall>e \<in> edges g. card e = 2 \<and> e \<subseteq> set (node_ids g))"

section \<open>Mutation and exceptions\<close>

text \<open>
  Every method mutates the one graph in place and may raise. A method is a function from
  the graph before the call to the outcome (the exception raised or the value returned)
  and the graph the caller sees afterwards, also when the call raised.
\<close>

type_synonym 'a prog = "graph \<Rightarrow> (error + 'a) \<times> graph"

definition ret :: "'a \<Rightarrow> 'a prog" where
  "ret x = (\<lambda>g. (Inr x, g))"

definition raise :: "error \<Rightarrow> 'a prog" where
  "raise e = (\<lambda>g. (Inl e, g))"

definition pbind :: "'a prog \<Rightarrow> ('a \<Rightarrow> 'b prog) \<Rightarrow> 'b prog" where
  "pbind m f = (\<lambda>g. case m g of (Inl e, g') \<Rightarrow> (Inl e, g') | (Inr x, g') \<Rightarrow> f x g')"

definition pseq :: "unit prog \<Rightarrow> 'b prog \<Rightarrow> 'b prog" where
  "pseq m k = pbind m (\<lambda>_. k)"

definition pwhen :: "bool \<Rightarrow> unit prog \<Rightarrow> unit prog" where
  "pwhen b m = (if b then m else ret ())"

text \<open>\<^verbatim>\<open>for x in xs: f(x)\<close>, stopping at the first exception.\<close>

fun foreach :: "'a list \<Rightarrow> ('a \<Rightarrow> unit prog) \<Rightarrow> unit prog" where
  "foreach [] f = ret ()"
| "foreach (x # xs) f = pseq (f x) (foreach xs f)"

section \<open>The graph store\<close>

text \<open>
  Modelled from the spec: \<^verbatim>\<open>self.nodes[node][key]\<close> reads one flag of a node and fails
  with a not-found error on an identifier that is not in the graph.
\<close>

definition node_get :: "int \<Rightarrow> (flags \<Rightarrow> bool) \<Rightarrow> bool prog" where
  "node_get n key = (\<lambda>g. case map_of (nodes g) n of
       None \<Rightarrow> (Inl (NotFound n), g)
     | Some f \<Rightarrow> (Inr (key f), g))"

text \<open>
  Modelled from the spec: \<^verbatim>\<open>self.nodes[node][key] = v\<close> writes one flag of a node; the
  field is named by its record update function.
\<close>

definition upd_node :: "int \<Rightarrow> (flags \<Rightarrow> flags) \<Rightarrow> (int \<times> flags) list \<Rightarrow> (int \<times> flags) list" where
  "upd_node n u ns = map (\<lambda>(k, f). (k, if k = n then u f else f)) ns"

definition node_set :: "int \<Rightarrow> ((bool \<Rightarrow> bool) \<Rightarrow> flags \<Rightarrow> flags) \<Rightarrow> bool \<Rightarrow> unit prog" where
  "node_set n key v = (\<lambda>g. if has_node g n
     then (Inr (), g\<lparr>nodes := upd_node n (key (\<lambda>_. v)) (nodes g)\<rparr>)
     else (Inl (NotFound n), g))"

text \<open>
  Modelled from the spec: \<^verbatim>\<open>(u, v) in self.edges\<close> for the undirected edge set.
\<close>

definition in_edges :: "int \<times> int \<Rightarrow> graph \<Rightarrow> bool" where
  "in_edges p g \<longleftrightarrow> {fst p, snd p} \<in> edges g"

text \<open>
  Modelled from the spec: \<^verbatim>\<open>neighbors(node)\<close> iterates over the nodes adjacent to
  \<^verbatim>\<open>node\<close>, in the iteration order of the node dictionary, and fails on a missing node.
\<close>

definition adjacent :: "graph \<Rightarrow> int \<Rightarrow> int list" where
  "adjacent g n = filter (\<lambda>m. {n, m} \<in> edges g) (node_ids g)"

definition neighbors :: "int \<Rightarrow> int list prog" where
  "neighbors n = (\<lambda>g. if has_node g n then (Inr (adjacent g n), g) else (Inl (NotFound n), g))"

text \<open>
  Modelled from the spec: \<^verbatim>\<open>remove_node(node)\<close> deletes the node and, in cascade, every
  edge incident to it.
\<close>

definition remove_node :: "int \<Rightarrow> unit prog" where
  "remove_node n = (\<lambda>g. if has_node g n
     then (Inr (), g\<lparr>nodes := filter (\<lambda>(k, f). k \<noteq> n) (nodes g),
                      edges := {e \<in> edges g. n \<notin> e}\<rparr>)
     else (Inl (NotFound n), g))"

text \<open>
  Modelled from the spec: \<^verbatim>\<open>local_complement(node)\<close> toggles the presence of every edge
  among pairs of distinct neighbors of \<^verbatim>\<open>node\<close>; the node's own flags and its edges to
  its neighbors are untouched.
\<close>

definition neighbor_pairs :: "int list \<Rightarrow> int set set" where
  "neighbor_pairs ns = set (concat (map (\<lambda>a. map (\<lambda>b. {a, b}) (filter (\<lambda>b. a \<noteq> b) ns)) ns))"

definition local_complement :: "int \<Rightarrow> unit prog" where
  "local_complement n = pbind (neighbors n) (\<lambda>ns g.
     (Inr (), g\<lparr>edges := sym_diff (edges g) (neighbor_pairs ns)\<rparr>))"

section \<open>Decoration primitives and gates\<close>

definition flip_fill :: "int \<Rightarrow> unit prog" where
  "flip_fill node = pbind (node_get node hollow) (\<lambda>b. node_set node hollow_update (\<not> b))"

definition flip_sign :: "int \<Rightarrow> unit prog" where
  "flip_sign node = pbind (node_get node sign) (\<lambda>b. node_set node sign_update (\<not> b))"

definition advance :: "int \<Rightarrow> unit prog" where
  "advance node = pbind (node_get node loop) (\<lambda>lp.
     if lp then pseq (node_set node loop_update False) (flip_sign node)
     else node_set node loop_update True)"

definition h :: "int \<Rightarrow> unit prog" where
  "h node = flip_fill node"

definition s :: "int \<Rightarrow> unit prog" where
  "s node = pbind (node_get node hollow) (\<lambda>hl.
     if hl then
       pbind (node_get node loop) (\<lambda>lp.
         if lp then
           pseq (flip_fill node)
          (pseq (node_set node loop_update False)
          (pseq (local_complement node)
          (pbind (neighbors node) (\<lambda>ns. foreach ns advance))))
         else
           pseq (local_complement node)
          (pseq (pbind (neighbors node) (\<lambda>ns. foreach ns advance))
          (pbind (node_get node sign) (\<lambda>sg.
             pwhen sg (pbind (neighbors node) (\<lambda>ns. foreach ns flip_sign))))))
     else advance node)"

definition z :: "int \<Rightarrow> unit prog" where
  "z node = pbind (node_get node hollow) (\<lambda>hl.
     if hl then
       pseq (pbind (neighbors node) (\<lambda>ns. foreach ns flip_sign))
      (pbind (node_get node loop) (\<lambda>lp. pwhen lp (flip_sign node)))
     else flip_sign node)"

section \<open>Equivalence rewrites\<close>

definition equivalent_graph_e1 :: "int \<Rightarrow> unit prog" where
  "equivalent_graph_e1 node = pbind (node_get node loop) (\<lambda>lp.
     if \<not> lp then raise (ValueError ''node must have loop'')
     else
       pseq (flip_fill node)
      (pseq (local_complement node)
      (pseq (pbind (neighbors node) (\<lambda>ns. foreach ns advance))
      (pseq (flip_sign node)
      (pbind (node_get node sign) (\<lambda>sg.
         pwhen sg (pbind (neighbors node) (\<lambda>ns. foreach ns flip_sign))))))))"

text \<open>
  \<^verbatim>\<open>set(self.neighbors(node1)) & set(self.neighbors(node2))\<close>: the common neighbors, here
  in the order of the first list.
\<close>

definition common_neighbors :: "int \<Rightarrow> int \<Rightarrow> int list prog" where
  "common_neighbors node1 node2 = pbind (neighbors node1) (\<lambda>ns1.
     pbind (neighbors node2) (\<lambda>ns2. ret (filter (\<lambda>i. i \<in> set ns2) ns1)))"

definition equivalent_graph_e2 :: "int \<Rightarrow> int \<Rightarrow> unit prog" where
  "equivalent_graph_e2 node1 node2 = (\<lambda>g.
     if \<not> in_edges (node1, node2) g \<and> \<not> in_edges (node2, node1) g
     then raise (ValueError ''nodes must be connected by an edge'') g
     else
      (pbind (node_get node1 loop) (\<lambda>lp1.
       pbind (if lp1 then ret True else node_get node2 loop) (\<lambda>lp.
       if lp then raise (ValueError ''nodes must not have loop'')
       else
         pbind (node_get node1 sign) (\<lambda>sg1.
         pbind (node_get node2 sign) (\<lambda>sg2.
         pseq (flip_fill node1)
        (pseq (flip_fill node2)
        (pseq (local_complement node1)
        (pseq (local_complement node2)
        (pseq (local_complement node1)
        (pseq (pbind (common_neighbors node1 node2) (\<lambda>ns. foreach ns flip_sign))
        (pseq (pwhen sg1
                (pseq (flip_sign node1)
                      (pbind (neighbors node1) (\<lambda>ns. foreach ns flip_sign))))
              (pwhen sg2
                (pseq (flip_sign node2)
                      (pbind (neighbors node2) (\<lambda>ns. foreach ns flip_sign))))))))))))))) g)"

section \<open>Node filling\<close>

text \<open>
  \<^verbatim>\<open>for i in self.neighbors(node): if not self.nodes[i]["loop"]: ...; return 0\<close>: the
  scan for the first neighbor without a loop. It yields that neighbor, or nothing when
  every neighbor has a loop.
\<close>

fun first_loopless :: "int list \<Rightarrow> int option prog" where
  "first_loopless [] = ret None"
| "first_loopless (i # ns) = pbind (node_get i loop) (\<lambda>lp.
     if \<not> lp then ret (Some i) else first_loopless ns)"

text \<open>\<^verbatim>\<open>next(it)\<close> on an iterator: its first element, \<^verbatim>\<open>StopIteration\<close> when empty.\<close>

definition next_of :: "int list \<Rightarrow> int prog" where
  "next_of ns = (case ns of [] \<Rightarrow> raise (ValueError ''StopIteration'') | i # _ \<Rightarrow> ret i)"

definition equivalent_fill_node :: "int \<Rightarrow> int prog" where
  "equivalent_fill_node node = pbind (node_get node hollow) (\<lambda>hl.
     if hl then
       pbind (node_get node loop) (\<lambda>lp.
         if lp then pseq (equivalent_graph_e1 node) (ret 0)
         else
           pbind (neighbors node) (\<lambda>ns.
             if length ns = 0 then ret 1
             else
               pbind (pbind (neighbors node) first_loopless) (\<lambda>found.
                 case found of
                   Some i \<Rightarrow> pseq (equivalent_graph_e2 node i) (ret 0)
                 | None \<Rightarrow>
                     pbind (pbind (neighbors node) next_of) (\<lambda>i.
                     pseq (equivalent_graph_e1 i)
                    (pseq (equivalent_graph_e1 node) (ret 0))))))
     else
       pbind (neighbors node) (\<lambda>ns. if length ns = 0 then ret 2 else ret 0))"

section \<open>Measurements\<close>

definition check_choice :: "int \<Rightarrow> unit prog" where
  "check_choice choice =
     (if choice \<notin> set [0, 1] then raise (ValueError ''choice must be 0 or 1'') else ret ())"

definition int_of_bool :: "bool \<Rightarrow> int" where
  "int_of_bool b = (if b then 1 else 0)"

definition measure_z :: "int \<Rightarrow> int \<Rightarrow> int prog" where
  "measure_z node choice =
     pseq (check_choice choice)
    (pbind (equivalent_fill_node node) (\<lambda>isolated.
     pseq (pwhen (choice \<noteq> 0) (pbind (neighbors node) (\<lambda>ns. foreach ns flip_sign)))
    (pbind (if isolated = 0 then ret choice
            else pbind (node_get node sign) (\<lambda>sg. ret (int_of_bool sg))) (\<lambda>result.
     pseq (remove_node node) (ret result)))))"

definition measure_x :: "int \<Rightarrow> int \<Rightarrow> int prog" where
  "measure_x node choice =
     pseq (check_choice choice)
    (pbind (neighbors node) (\<lambda>ns.
     if length ns = 0 then
       pbind (pbind (node_get node hollow) (\<lambda>hl.
              pbind (if hl then ret True else node_get node loop) (\<lambda>hl_or_lp.
              if hl_or_lp then ret choice
              else pbind (node_get node sign) (\<lambda>sg. if sg then ret 1 else ret 0)))) (\<lambda>choice'.
       pseq (remove_node node) (ret choice'))
     else pseq (h node) (measure_z node choice)))"

definition measure_y :: "int \<Rightarrow> int \<Rightarrow> int prog" where
  "measure_y node choice =
     pseq (check_choice choice)
    (pseq (s node)
    (pseq (z node)
    (pseq (h node) (measure_z node choice))))"

section \<open>Vertex operators\<close>

text \<open>
  Modelled from the spec: the Local Clifford Tracker (\<^verbatim>\<open>graphix.clifford.Clifford\<close> is not
  part of the source file). The spec asks for the 24 single-qubit Clifford operators,
  indexed 0 to 23, each with a decomposition into factors H, S, Z (the decomposition of the
  identity is the identity alone), and for a composition operator on indices. An operator
  is represented up to phase by its action on the Pauli axes X, Y, Z (axis 0, 1, 2): the
  image of each axis is an axis with a sign (\<open>True\<close> for minus). The indices of the
  identity, X, Y, Z, S, S-dagger and H are 0 to 6; the remaining operators are enumerated
  by the length of their decomposition.
\<close>

type_synonym pauli_action = "(bool \<times> nat) list"

definition Clifford_I :: int where "Clifford_I = 0"
definition Clifford_Z :: int where "Clifford_Z = 3"
definition Clifford_S :: int where "Clifford_S = 4"
definition Clifford_H :: int where "Clifford_H = 6"

definition clifford_hsz_table :: "int list list" where
  "clifford_hsz_table =
    [[0], [6, 3, 6], [6, 3, 6, 3], [3], [4], [4, 3], [6], [6, 4],
     [6, 3], [4, 6], [3, 6], [6, 4, 6], [6, 4, 3], [4, 6, 4], [4, 6, 3], [4, 3, 6],
     [3, 6, 4], [3, 6, 3], [6, 4, 6, 3], [6, 3, 6, 4], [4, 6, 4, 3], [4, 6, 3, 6],
     [4, 3, 6, 3], [3, 6, 4, 3]]"

definition factor_action :: "int \<Rightarrow> pauli_action" where
  "factor_action c =
    (if c = Clifford_H then [(False, 2), (True, 1), (False, 0)]
     else if c = Clifford_S then [(False, 1), (True, 0), (False, 2)]
     else if c = Clifford_Z then [(True, 0), (True, 1), (False, 2)]
     else [(False, 0), (False, 1), (False, 2)])"

definition compose_action :: "pauli_action \<Rightarrow> pauli_action \<Rightarrow> pauli_action" where
  "compose_action a b = map (\<lambda>(sg, ax). (sg \<noteq> fst (a ! ax), snd (a ! ax))) b"

definition word_action :: "int list \<Rightarrow> pauli_action" where
  "word_action w = foldr (\<lambda>c acc. compose_action (factor_action c) acc) w (factor_action Clifford_I)"

definition clifford_action :: "int \<Rightarrow> pauli_action" where
  "clifford_action v = word_action (clifford_hsz_table ! nat v)"

text \<open>\<^verbatim>\<open>(Clifford(a) @ Clifford(b)).value\<close>, for indices in range.\<close>

definition clifford_mul :: "int \<Rightarrow> int \<Rightarrow> int" where
  "clifford_mul a b =
    (case find (\<lambda>k. clifford_action k = compose_action (clifford_action a) (clifford_action b))
            [0, 1, 2, 3, 4, 5, 6, 7, 8, 9, 10, 11, 12, 13, 14, 15, 16, 17, 18, 19, 20, 21, 22, 23]
     of Some k \<Rightarrow> k | None \<Rightarrow> 0)"

text \<open>\<^verbatim>\<open>Clifford(vop).hsz\<close>; an index out of range is not a member of the enumeration.\<close>

definition clifford_hsz :: "int \<Rightarrow> int list prog" where
  "clifford_hsz vop =
    (if 0 \<le> vop \<and> vop < 24 then ret (clifford_hsz_table ! nat vop)
     else raise (ValueError ''not a valid Clifford''))"

definition apply_lc :: "int \<Rightarrow> int \<Rightarrow> unit prog" where
  "apply_lc node lc =
    (if lc = Clifford_Z then z node
     else if lc = Clifford_H then h node
     else if lc = Clifford_S then s node
     else ret ())"

definition apply_vops :: "(int \<times> int) list \<Rightarrow> unit prog" where
  "apply_vops vops = foreach vops (\<lambda>(node, vop).
     pbind (clifford_hsz vop) (\<lambda>hsz. foreach (rev hsz) (apply_lc node)))"

fun get_vops_loop :: "int list \<Rightarrow> (int \<times> int) list \<Rightarrow> (int \<times> int) list prog" where
  "get_vops_loop [] vops = ret vops"
| "get_vops_loop (i # is) vops =
     pbind (node_get i sign) (\<lambda>sg.
     pbind (ret (if sg then clifford_mul Clifford_Z 0 else 0)) (\<lambda>vop.
     pbind (node_get i loop) (\<lambda>lp.
     pbind (ret (if lp then clifford_mul Clifford_S vop else vop)) (\<lambda>vop.
     pbind (node_get i hollow) (\<lambda>hl.
     pbind (ret (if hl then clifford_mul Clifford_H vop else vop)) (\<lambda>vop.
     get_vops_loop is (AList.update i vop vops)))))))"

definition get_vops :: "(int \<times> int) list prog" where
  "get_vops = (\<lambda>g. get_vops_loop (node_ids g) [] g)"

section \<open>Auxiliary notions for the statements\<close>

text \<open>The flags of a node of the graph.\<close>

definition flags_of :: "graph \<Rightarrow> int \<Rightarrow> flags" where
  "flags_of g n = the (map_of (nodes g) n)"

text \<open>The graph with the flags of the nodes in \<open>S\<close> transformed by \<open>u\<close>.\<close>

definition mod_nodes :: "int set \<Rightarrow> (flags \<Rightarrow> flags) \<Rightarrow> graph \<Rightarrow> graph" where
  "mod_nodes S u g = g\<lparr>nodes := map (\<lambda>(k, f). (k, if k \<in> S then u f else f)) (nodes g)\<rparr>"

text \<open>The graph with the edges among the neighbors of \<open>n\<close> toggled.\<close>

definition lc_graph :: "int \<Rightarrow> graph \<Rightarrow> graph" where
  "lc_graph n g = g\<lparr>edges := sym_diff (edges g) (neighbor_pairs (adjacent g n))\<rparr>"

definition flipS :: "flags \<Rightarrow> flags" where
  "flipS f = f\<lparr>sign := \<not> sign f\<rparr>"

definition flipH :: "flags \<Rightarrow> flags" where
  "flipH f = f\<lparr>hollow := \<not> hollow f\<rparr>"

definition adv :: "flags \<Rightarrow> flags" where
  "adv f = (if loop f then f\<lparr>loop := False, sign := \<not> sign f\<rparr> else f\<lparr>loop := True\<rparr>)"

section \<open>Example graphs\<close>

text \<open>A single node \<open>0\<close>, hollow, without loop and without neighbors.\<close>

definition scenario_d :: graph where
  "scenario_d = \<lparr>nodes = [(0, \<lparr>hollow = True, sign = False, loop = False\<rparr>)], edges = {}\<rparr>"

section \<open>Running a method\<close>

lemma pbind_Inr: "m g = (Inr x, g') \<Longrightarrow> pbind m f g = f x g'"
  by (simp add: pbind_def)

lemma pbind_Inl: "m g = (Inl e, g') \<Longrightarrow> pbind m f g = (Inl e, g')"
  by (simp add: pbind_def)

lemma pseq_Inr: "m g = (Inr x, g') \<Longrightarrow> pseq m k g = k g'"
  by (simp add: pseq_def pbind_def)

lemma pseq_Inl: "m g = (Inl e, g') \<Longrightarrow> pseq m k g = (Inl e, g')"
  by (simp add: pseq_def pbind_def)

lemma ret_apply: "ret x g = (Inr x, g)"
  by (simp add: ret_def)

lemma raise_apply: "raise e g = (Inl e, g)"
  by (simp add: raise_def)

lemma pbind_cases:
  assumes "pbind m f g = (r, g')"
  obtains (fails) e where "m g = (Inl e, g')" "r = Inl e"
        | (returns) x g1 where "m g = (Inr x, g1)" "f x g1 = (r, g')"
proof (cases "m g")
  case (Pair a g1)
  show ?thesis
  proof (cases a)
    case (Inl e)
    with Pair assms have "m g = (Inl e, g')" "r = Inl e" by (auto simp: pbind_def)
    then show ?thesis by (rule fails)
  next
    case (Inr x)
    with Pair assms have "m g = (Inr x, g1)" "f x g1 = (r, g')" by (auto simp: pbind_def)
    then show ?thesis by (rule returns)
  qed
qed

lemma pseq_cases:
  assumes "pseq m k g = (r, g')"
  obtains (fails) e where "m g = (Inl e, g')" "r = Inl e"
        | (returns) g1 where "m g = (Inr (), g1)" "k g1 = (r, g')"
  using assms unfolding pseq_def by (elim pbind_cases) auto

section \<open>The graph store: reads, writes and their frames\<close>

lemma node_ids_mod_nodes [simp]: "node_ids (mod_nodes S u g) = node_ids g"
  by (simp add: node_ids_def mod_nodes_def comp_def case_prod_unfold)

lemma edges_mod_nodes [simp]: "edges (mod_nodes S u g) = edges g"
  by (simp add: mod_nodes_def)

lemma has_node_mod_nodes [simp]: "has_node (mod_nodes S u g) n = has_node g n"
  by (simp add: has_node_def)

lemma adjacent_mod_nodes [simp]: "adjacent (mod_nodes S u g) n = adjacent g n"
  by (simp add: adjacent_def)

lemma node_ids_lc_graph [simp]: "node_ids (lc_graph n g) = node_ids g"
  by (simp add: node_ids_def lc_graph_def)

lemma nodes_lc_graph [simp]: "nodes (lc_graph n g) = nodes g"
  by (simp add: lc_graph_def)

lemma has_node_lc_graph [simp]: "has_node (lc_graph n g) m = has_node g m"
  by (simp add: has_node_def)

lemma flags_of_lc_graph [simp]: "flags_of (lc_graph n g) m = flags_of g m"
  by (simp add: flags_of_def)

lemma map_of_mod:
  "map_of (map (\<lambda>(k, f). (k, if k \<in> S then u f else f)) ns) m
   = map_option (\<lambda>f. if m \<in> S then u f else f) (map_of ns m)"
  by (induction ns) auto

lemma has_node_map_of: "has_node g n \<Longrightarrow> map_of (nodes g) n = Some (flags_of g n)"
proof -
  assume "has_node g n"
  then have "map_of (nodes g) n \<noteq> None"
    by (simp add: has_node_def node_ids_def map_of_eq_None_iff)
  then show ?thesis by (auto simp: flags_of_def)
qed

lemma missing_map_of: "\<not> has_node g n \<Longrightarrow> map_of (nodes g) n = None"
  by (simp add: has_node_def node_ids_def map_of_eq_None_iff)

lemma flags_of_mod_nodes:
  "has_node g m \<Longrightarrow>
   flags_of (mod_nodes S u g) m = (if m \<in> S then u (flags_of g m) else flags_of g m)"
proof -
  assume h: "has_node g m"
  have "map_of (nodes (mod_nodes S u g)) m
      = map_option (\<lambda>f. if m \<in> S then u f else f) (map_of (nodes g) m)"
    by (simp add: mod_nodes_def map_of_mod)
  also have "\<dots> = Some (if m \<in> S then u (flags_of g m) else flags_of g m)"
    by (simp add: has_node_map_of[OF h])
  finally show ?thesis by (simp add: flags_of_def[of "mod_nodes S u g"])
qed

lemma distinct_flags_of:
  "distinct (node_ids g) \<Longrightarrow> (k, f) \<in> set (nodes g) \<Longrightarrow> flags_of g k = f"
  by (simp add: flags_of_def node_ids_def)

lemma mod_nodes_cong:
  "(\<And>k f. (k, f) \<in> set (nodes g) \<Longrightarrow> k \<in> S \<Longrightarrow> u f = v f) \<Longrightarrow>
   mod_nodes S u g = mod_nodes S v g"
proof -
  assume a: "\<And>k f. (k, f) \<in> set (nodes g) \<Longrightarrow> k \<in> S \<Longrightarrow> u f = v f"
  have "map (\<lambda>(k, f). (k, if k \<in> S then u f else f)) (nodes g)
      = map (\<lambda>(k, f). (k, if k \<in> S then v f else f)) (nodes g)"
    by (rule map_cong) (auto simp: a)
  then show ?thesis by (simp add: mod_nodes_def)
qed

lemma mod_nodes_twice: "mod_nodes S u (mod_nodes S v g) = mod_nodes S (u \<circ> v) g"
  by (simp add: mod_nodes_def case_prod_unfold comp_def)

lemma mod_nodes_empty [simp]: "mod_nodes {} u g = g"
  by (simp add: mod_nodes_def)

lemma mod_nodes_insert:
  "x \<notin> S \<Longrightarrow> mod_nodes S u (mod_nodes {x} u g) = mod_nodes (insert x S) u g"
proof -
  assume x: "x \<notin> S"
  have "map ((\<lambda>(k, f). (k, if k \<in> S then u f else f)) \<circ> (\<lambda>(k, f). (k, if k \<in> {x} then u f else f)))
          (nodes g)
      = map (\<lambda>(k, f). (k, if k \<in> insert x S then u f else f)) (nodes g)"
    by (rule map_cong) (use x in auto)
  then show ?thesis by (simp add: mod_nodes_def)
qed

lemma node_get_has: "has_node g n \<Longrightarrow> node_get n key g = (Inr (key (flags_of g n)), g)"
  by (simp add: node_get_def has_node_map_of)

lemma node_get_missing: "\<not> has_node g n \<Longrightarrow> node_get n key g = (Inl (NotFound n), g)"
  by (simp add: node_get_def missing_map_of)

lemma neighbors_has: "has_node g n \<Longrightarrow> neighbors n g = (Inr (adjacent g n), g)"
  by (simp add: neighbors_def)

lemma neighbors_missing: "\<not> has_node g n \<Longrightarrow> neighbors n g = (Inl (NotFound n), g)"
  by (simp add: neighbors_def)

lemma local_complement_has:
  "has_node g n \<Longrightarrow> local_complement n g = (Inr (), lc_graph n g)"
  by (simp add: local_complement_def pbind_def neighbors_def lc_graph_def)

lemma upd_node_unique:
  "distinct (map fst ns) \<Longrightarrow> map_of ns n = Some f0 \<Longrightarrow> u' f0 = u f0 \<Longrightarrow>
   upd_node n u' ns = map (\<lambda>(k, f). (k, if k \<in> S then u f else f)) ns" if "S = {n}"
proof (induction ns)
  case Nil
  then show ?case by (simp add: upd_node_def)
next
  case (Cons a ns)
  obtain k f where a: "a = (k, f)" by (cases a)
  show ?case
  proof (cases "k = n")
    case True
    with Cons.prems a have f: "f = f0" and notin: "n \<notin> fst ` set ns" by auto
    from notin have "upd_node n u' ns = ns"
      by (induction ns) (auto simp: upd_node_def)
    moreover from notin have "map (\<lambda>(k, f). (k, if k \<in> S then u f else f)) ns = ns"
      unfolding that by (induction ns) auto
    ultimately show ?thesis using a True f Cons.prems(3) that by (simp add: upd_node_def)
  next
    case False
    with Cons a that show ?thesis by (simp add: upd_node_def)
  qed
qed

lemma node_set_has:
  assumes "has_node g n" "distinct (node_ids g)" "key (\<lambda>_. v) (flags_of g n) = u (flags_of g n)"
  shows "node_set n key v g = (Inr (), mod_nodes {n} u g)"
proof -
  have "upd_node n (key (\<lambda>_. v)) (nodes g)
      = map (\<lambda>(k, f). (k, if k \<in> {n} then u f else f)) (nodes g)"
    using assms by (intro upd_node_unique) (simp_all add: node_ids_def has_node_map_of)
  with assms(1) show ?thesis by (simp add: node_set_def mod_nodes_def)
qed

lemma flip_sign_has:
  assumes "has_node g n" "distinct (node_ids g)"
  shows "flip_sign n g = (Inr (), mod_nodes {n} flipS g)"
proof -
  have "node_set n sign_update (\<not> sign (flags_of g n)) g = (Inr (), mod_nodes {n} flipS g)"
    using assms by (rule node_set_has) (simp add: flipS_def)
  then show ?thesis
    using assms(1) by (simp add: flip_sign_def pbind_def node_get_has)
qed

lemma flip_fill_has:
  assumes "has_node g n" "distinct (node_ids g)"
  shows "flip_fill n g = (Inr (), mod_nodes {n} flipH g)"
proof -
  have "node_set n hollow_update (\<not> hollow (flags_of g n)) g = (Inr (), mod_nodes {n} flipH g)"
    using assms by (rule node_set_has) (simp add: flipH_def)
  then show ?thesis
    using assms(1) by (simp add: flip_fill_def pbind_def node_get_has)
qed

lemma advance_has:
  assumes "has_node g n" "distinct (node_ids g)"
  shows "advance n g = (Inr (), mod_nodes {n} adv g)"
proof (cases "loop (flags_of g n)")
  case True
  let ?g1 = "mod_nodes {n} (\<lambda>f. f\<lparr>loop := False\<rparr>) g"
  have 1: "node_set n loop_update False g = (Inr (), ?g1)"
    using assms by (rule node_set_has) simp
  have 2: "flip_sign n ?g1 = (Inr (), mod_nodes {n} flipS ?g1)"
    using assms by (intro flip_sign_has) simp_all
  have "mod_nodes {n} flipS ?g1 = mod_nodes {n} (flipS \<circ> (\<lambda>f. f\<lparr>loop := False\<rparr>)) g"
    by (rule mod_nodes_twice)
  also have "\<dots> = mod_nodes {n} adv g"
  proof (rule mod_nodes_cong)
    fix k f assume "(k, f) \<in> set (nodes g)" "k \<in> {n}"
    with assms(2) have "flags_of g n = f" by (simp add: distinct_flags_of)
    with True show "(flipS \<circ> (\<lambda>f. f\<lparr>loop := False\<rparr>)) f = adv f"
      by (auto simp: flipS_def adv_def)
  qed
  finally have 3: "mod_nodes {n} flipS ?g1 = mod_nodes {n} adv g" .
  have "advance n g = pseq (node_set n loop_update False) (flip_sign n) g"
    using True assms(1) by (simp add: advance_def pbind_def node_get_has)
  also have "\<dots> = flip_sign n ?g1"
    using 1 by (rule pseq_Inr)
  finally show ?thesis using 2 3 by simp
next
  case False
  have "node_set n loop_update True g = (Inr (), mod_nodes {n} adv g)"
    using assms
  proof (rule node_set_has)
    show "loop_update (\<lambda>_. True) (flags_of g n) = adv (flags_of g n)"
      using False by (simp add: adv_def)
  qed
  moreover have "advance n g = node_set n loop_update True g"
    using False assms(1) by (simp add: advance_def pbind_def node_get_has)
  ultimately show ?thesis by simp
qed

text \<open>A fan-out loop over distinct nodes of the graph transforms the flags of each once.\<close>

lemma foreach_mod_nodes:
  assumes step: "\<And>n g. has_node g n \<Longrightarrow> distinct (node_ids g) \<Longrightarrow> f n g = (Inr (), mod_nodes {n} u g)"
  shows "distinct ns \<Longrightarrow> set ns \<subseteq> set (node_ids g) \<Longrightarrow> distinct (node_ids g) \<Longrightarrow>
         foreach ns f g = (Inr (), mod_nodes (set ns) u g)"
proof (induction ns arbitrary: g)
  case Nil
  then show ?case by (simp add: ret_def)
next
  case (Cons x xs)
  have 1: "f x g = (Inr (), mod_nodes {x} u g)"
    using Cons.prems by (intro step) (simp_all add: has_node_def)
  have 2: "foreach xs f (mod_nodes {x} u g) = (Inr (), mod_nodes (set xs) u (mod_nodes {x} u g))"
    using Cons.prems by (intro Cons.IH) simp_all
  have 3: "mod_nodes (set xs) u (mod_nodes {x} u g) = mod_nodes (set (x # xs)) u g"
    using Cons.prems(1) by (simp add: mod_nodes_insert)
  show ?case using 1 2 3 by (simp add: pseq_Inr)
qed

lemma adjacent_subset: "set (adjacent g n) \<subseteq> set (node_ids g)"
  by (auto simp: adjacent_def)

lemma adjacent_distinct: "distinct (node_ids g) \<Longrightarrow> distinct (adjacent g n)"
  by (simp add: adjacent_def)

section \<open>Node filling: statuses\<close>

lemma pseq_ret_status: "pseq m (ret c) g = (Inr st, g') \<Longrightarrow> st = c"
  by (erule pseq_cases) (auto simp: ret_def)

lemma efn_solid:
  assumes "has_node g n" "\<not> hollow (flags_of g n)"
  shows "equivalent_fill_node n g = (Inr (if adjacent g n = [] then 2 else 0), g)"
  using assms
  by (simp add: equivalent_fill_node_def pbind_def node_get_has neighbors_has ret_def)

lemma efn_hollow_isolated:
  assumes "has_node g n" "hollow (flags_of g n)" "\<not> loop (flags_of g n)" "adjacent g n = []"
  shows "equivalent_fill_node n g = (Inr 1, g)"
  using assms
  by (simp add: equivalent_fill_node_def pbind_def node_get_has neighbors_has ret_def)

lemma efn_changed_status:
  assumes "equivalent_fill_node n g = (Inr st, g')" "st \<noteq> 0"
  shows "g' = g"
proof (cases "has_node g n")
  case False
  then show ?thesis using assms
    by (simp add: equivalent_fill_node_def pbind_def node_get_missing)
next
  case hn: True
  show ?thesis
  proof (cases "hollow (flags_of g n)")
    case False
    with hn assms show ?thesis by (simp add: efn_solid)
  next
    case hl: True
    show ?thesis
    proof (cases "loop (flags_of g n)")
      case True
      with hn hl assms have "pseq (equivalent_graph_e1 n) (ret 0) g = (Inr st, g')"
        by (simp add: equivalent_fill_node_def pbind_def node_get_has)
      then have "st = 0" by (rule pseq_ret_status)
      with assms show ?thesis by simp
    next
      case lp: False
      show ?thesis
      proof (cases "adjacent g n = []")
        case True
        with hn hl lp assms show ?thesis by (simp add: efn_hollow_isolated)
      next
        case False
        let ?k = "\<lambda>found. case found of
                   Some i \<Rightarrow> pseq (equivalent_graph_e2 n i) (ret 0)
                 | None \<Rightarrow>
                     pbind (pbind (neighbors n) next_of) (\<lambda>i.
                     pseq (equivalent_graph_e1 i)
                    (pseq (equivalent_graph_e1 n) (ret 0)))"
        from hn hl lp False assms
        have "pbind (pbind (neighbors n) first_loopless) ?k g = (Inr st, g')"
          by (simp add: equivalent_fill_node_def pbind_Inr[OF node_get_has] pbind_Inr[OF neighbors_has])
        then obtain found g1 where k: "?k found g1 = (Inr st, g')"
          by (elim pbind_cases) auto
        have "st = 0"
        proof (cases found)
          case (Some i)
          with k show ?thesis by (auto dest: pseq_ret_status)
        next
          case None
          with k obtain i g2 where
            "pseq (equivalent_graph_e1 i) (pseq (equivalent_graph_e1 n) (ret 0)) g2 = (Inr st, g')"
            by (auto elim!: pbind_cases)
          then obtain g3 where "pseq (equivalent_graph_e1 n) (ret 0) g3 = (Inr st, g')"
            by (rule pseq_cases) auto
          then show ?thesis by (rule pseq_ret_status)
        qed
        with assms show ?thesis by simp
      qed
    qed
  qed
qed

text \<open>
  Claim C3. On a node of the graph, \<^verbatim>\<open>equivalent_fill_node\<close> returns 2 when the node is not
  hollow and has no neighbor, 0 when it is not hollow and has a neighbor, and 1 when it is
  hollow, without loop and without neighbor; whenever the status is 1 or 2 (not 0), the
  graph (nodes, edges, flags) is the one before the call.
\<close>

theorem equivalent_fill_node_status:
  assumes "has_node g n"
  shows "(\<not> hollow (flags_of g n) \<and> adjacent g n = [] \<longrightarrow> equivalent_fill_node n g = (Inr 2, g))
       \<and> (\<not> hollow (flags_of g n) \<and> adjacent g n \<noteq> [] \<longrightarrow> equivalent_fill_node n g = (Inr 0, g))
       \<and> (hollow (flags_of g n) \<and> \<not> loop (flags_of g n) \<and> adjacent g n = []
            \<longrightarrow> equivalent_fill_node n g = (Inr 1, g))
       \<and> (\<forall>st g'. equivalent_fill_node n g = (Inr st, g') \<and> st \<noteq> 0 \<longrightarrow> g' = g)"
  using assms by (auto simp: efn_solid efn_hollow_isolated dest: efn_changed_status)

theorem equivalent_fill_node_status_witness:
  "has_node scenario_d 0 \<and> equivalent_fill_node 0 scenario_d = (Inr 1, scenario_d)"
proof -
  have hn: "has_node scenario_d 0"
    by (simp add: scenario_d_def has_node_def node_ids_def)
  have "hollow (flags_of scenario_d 0) \<and> \<not> loop (flags_of scenario_d 0) \<and> adjacent scenario_d 0 = []"
    by (simp add: scenario_d_def flags_of_def adjacent_def node_ids_def)
  with equivalent_fill_node_status[OF hn] hn show ?thesis by blast
qed

end
